theory Spec2Isabelle
  imports Main "HOL-Library.Word"
begin

section \<open>Strings of the host language\<close>

text \<open>
  A TypeScript string is a sequence of UTF-16 code units. \<open>js\<close> writes an ASCII
  literal as such a sequence.
\<close>

type_synonym jsstring = "16 word list"

definition js :: "string \<Rightarrow> jsstring" where
  "js s = map (\<lambda>c. word_of_nat (of_char c)) s"

text \<open>
  \<open>String.prototype.trim\<close> removes the leading and the trailing white space and line
  terminators of ECMAScript: TAB, LF, VT, FF, CR, SP, NBSP, U+1680, U+2000 to U+200A,
  U+2028, U+2029, U+202F, U+205F, U+3000 and U+FEFF. All of them are single code units.
\<close>

definition isWhiteSpace :: "16 word \<Rightarrow> bool" where
  "isWhiteSpace c \<longleftrightarrow>
     c = 0x09 \<or> c = 0x0A \<or> c = 0x0B \<or> c = 0x0C \<or> c = 0x0D \<or> c = 0x20 \<or> c = 0xA0 \<or>
     c = 0x1680 \<or> (0x2000 \<le> c \<and> c \<le> 0x200A) \<or> c = 0x2028 \<or> c = 0x2029 \<or>
     c = 0x202F \<or> c = 0x205F \<or> c = 0x3000 \<or> c = 0xFEFF"

definition trim :: "jsstring \<Rightarrow> jsstring" where
  "trim s = rev (dropWhile isWhiteSpace (rev (dropWhile isWhiteSpace s)))"

text \<open>
  \<open>String.prototype.startsWith\<close> at position 0 and \<open>String.prototype.includes\<close> (here \<open>js_includes\<close>):
  the search string occurs at some index of the receiver.
\<close>

fun startsWith :: "jsstring \<Rightarrow> jsstring \<Rightarrow> bool" where
  "startsWith s [] = True"
| "startsWith [] (q # qs) = False"
| "startsWith (c # s) (q # qs) = (c = q \<and> startsWith s qs)"

fun js_includes :: "jsstring \<Rightarrow> jsstring \<Rightarrow> bool" where
  "js_includes [] q = (q = [])"
| "js_includes (c # s) q = (startsWith (c # s) q \<or> js_includes s q)"

section \<open>Data model\<close>

text \<open>
  The types of \<open>types.ts\<close>, as the components read them: \<open>Sender\<close>, \<open>ModelId\<close>, the
  attachment of a message, \<open>Message\<close> and \<open>ChatSession\<close>. Identifiers are opaque; they
  are numbers here, handed out from a counter of the store. The status of a message is
  the implicit state of the specification (pending, complete, errored, stopped).
\<close>

datatype sender = User | Assistant

datatype status = Pending | Complete | Errored | Stopped

datatype modelId = Gemini3FlashPreview | Gemini3ProPreview

record attachment =
  mimeType :: jsstring
  data :: jsstring
  fileName :: "jsstring option"

record message =
  msg_id :: nat
  msg_sender :: sender
  msg_text :: jsstring
  msg_attachment :: "attachment option"
  msg_timestamp :: nat
  msg_isError :: bool
  msg_status :: status

record session =
  ses_id :: nat
  ses_title :: jsstring
  ses_messages :: "message list"
  ses_createdAt :: nat
  ses_updatedAt :: nat
  ses_model :: modelId

section \<open>The message bubble: saving an edit\<close>

text \<open>
  \<open>ChatBubble\<close> holds the edit state \<open>isEditing\<close> and \<open>editedText\<close> and receives the
  message and the optional callback \<open>onEdit\<close> as properties. \<open>handleSaveEdit\<close> returns the
  calls it makes to \<open>onEdit\<close>, each with its two arguments, and the component's next state.
  \<open>onEdit?.(...)\<close> calls nothing when the property is not given.
\<close>

record chatBubble =
  message :: message
  onEdit :: bool
  isEditing :: bool
  editedText :: jsstring

definition handleSaveEdit :: "chatBubble \<Rightarrow> (nat \<times> jsstring) list \<times> chatBubble" where
  "handleSaveEdit b =
     ((if trim (editedText b) \<noteq> msg_text (message b)
       then (if onEdit b then [(msg_id (message b), editedText b)] else [])
       else []),
      b\<lparr>isEditing := False\<rparr>)"

section \<open>The history sidebar: filtering the sessions\<close>

text \<open>
  \<open>filteredSessions\<close> of \<open>App\<close>. \<open>String.prototype.toLowerCase\<close> is the host's Unicode
  case conversion; it is a parameter of the model. The conversion depends on the context
  of a letter: a capital sigma at the end of a word becomes the final sigma U+03C2, any
  other capital sigma becomes U+03C3.
\<close>

definition filteredSessions ::
  "(jsstring \<Rightarrow> jsstring) \<Rightarrow> session list \<Rightarrow> jsstring \<Rightarrow> session list" where
  "filteredSessions toLowerCase sessions searchQuery =
     filter (\<lambda>session. js_includes (toLowerCase (ses_title session)) (toLowerCase searchQuery))
       sessions"

section \<open>The chat store\<close>

text \<open>
  Modelled from the spec: the hook \<open>hooks/useChat\<close> that \<open>App\<close> imports is not among
  the sources, so the session store, the message log, the generation controller and the
  chat facade are written from sections 3 to 7 of the specification. The facade's
  context object holds the session collection, the current session, the controller's
  state and the selected model; fresh identifiers come from a counter. Every operation
  takes the time of the call, for the time stamps.
\<close>

datatype error = Busy | NotFound | InvalidState | PersistenceFailure | GenerationFailure

text \<open>
  The controller is idle or streaming; the handle of a streaming generation names the
  session and the pending message it writes into and keeps the conversation context it
  was started with. Completed, stopped and errored are the outcomes with which a
  generation returns to idle.
\<close>

datatype controller = Idle | Streaming nat nat "message list"

datatype outcome = Completed | Cancelled | Failed jsstring

record state =
  sessions :: "session list"
  currentSessionId :: "nat option"
  controllerState :: controller
  currentModel :: modelId
  nextId :: nat

definition init :: state where
  "init = \<lparr>sessions = [], currentSessionId = None, controllerState = Idle,
     currentModel = Gemini3FlashPreview, nextId = 0\<rparr>"

definition isLoading :: "state \<Rightarrow> bool" where
  "isLoading s \<longleftrightarrow> controllerState s \<noteq> Idle"

subsection \<open>Session store\<close>

text \<open>
  The collection lists the sessions most recently updated first: a session whose log
  changes is put at the front.
\<close>

definition find_session :: "nat \<Rightarrow> session list \<Rightarrow> session option" where
  "find_session i ss = find (\<lambda>x. ses_id x = i) ss"

definition put_session :: "session \<Rightarrow> session list \<Rightarrow> session list" where
  "put_session x ss = x # filter (\<lambda>y. ses_id y \<noteq> ses_id x) ss"

definition current_session :: "state \<Rightarrow> session option" where
  "current_session s =
     (case currentSessionId s of None \<Rightarrow> None | Some i \<Rightarrow> find_session i (sessions s))"

definition messages :: "state \<Rightarrow> message list" where
  "messages s = (case current_session s of None \<Rightarrow> [] | Some x \<Rightarrow> ses_messages x)"

definition new_session :: "state \<Rightarrow> nat \<Rightarrow> session" where
  "new_session s now = \<lparr>ses_id = nextId s, ses_title = [], ses_messages = [],
     ses_createdAt = now, ses_updatedAt = now, ses_model = currentModel s\<rparr>"

text \<open>
  The title of a session is derived from its first user message: trimmed, and cut to a
  bounded length with an ellipsis (the specification names 40 to 60 characters; 50 here).
\<close>

definition derive_title :: "jsstring \<Rightarrow> jsstring" where
  "derive_title t =
     (let u = trim t in if 50 < length u then take 50 u @ js ''...'' else u)"

subsection \<open>Message log\<close>

definition user_message :: "nat \<Rightarrow> jsstring \<Rightarrow> attachment option \<Rightarrow> nat \<Rightarrow> message" where
  "user_message i t a now = \<lparr>msg_id = i, msg_sender = User, msg_text = t, msg_attachment = a,
     msg_timestamp = now, msg_isError = False, msg_status = Complete\<rparr>"

definition pending_message :: "nat \<Rightarrow> nat \<Rightarrow> message" where
  "pending_message i now = \<lparr>msg_id = i, msg_sender = Assistant, msg_text = [],
     msg_attachment = None, msg_timestamp = now, msg_isError = False, msg_status = Pending\<rparr>"

definition append_message :: "message \<Rightarrow> nat \<Rightarrow> session \<Rightarrow> session" where
  "append_message m now x =
     x\<lparr>ses_title := (if msg_sender m = User \<and> ses_title x = []
                      then derive_title (msg_text m) else ses_title x),
       ses_messages := ses_messages x @ [m],
       ses_updatedAt := now\<rparr>"

fun keep_through :: "nat \<Rightarrow> message list \<Rightarrow> message list option" where
  "keep_through i [] = None"
| "keep_through i (m # ms) =
     (if msg_id m = i then Some [m] else map_option ((#) m) (keep_through i ms))"

definition truncateAfter :: "nat \<Rightarrow> nat \<Rightarrow> session \<Rightarrow> error + session" where
  "truncateAfter i now x =
     (case keep_through i (ses_messages x) of
        None \<Rightarrow> Inl NotFound
      | Some ms \<Rightarrow> Inr (x\<lparr>ses_messages := ms, ses_updatedAt := now\<rparr>))"

text \<open>
  The text of a message changes only while it is pending, or when a user message is
  edited.
\<close>

definition updateText :: "nat \<Rightarrow> jsstring \<Rightarrow> nat \<Rightarrow> session \<Rightarrow> error + session" where
  "updateText i t now x =
     (case find (\<lambda>m. msg_id m = i) (ses_messages x) of
        None \<Rightarrow> Inl NotFound
      | Some m \<Rightarrow>
          if msg_status m = Pending \<or> msg_sender m = User
          then Inr (x\<lparr>ses_messages :=
                        map (\<lambda>m. if msg_id m = i then m\<lparr>msg_text := t\<rparr> else m) (ses_messages x),
                      ses_updatedAt := now\<rparr>)
          else Inl InvalidState)"

definition on_current :: "(session \<Rightarrow> error + session) \<Rightarrow> state \<Rightarrow> error + state" where
  "on_current f s =
     (case current_session s of
        None \<Rightarrow> Inl NotFound
      | Some x \<Rightarrow>
          (case f x of
             Inl e \<Rightarrow> Inl e
           | Inr x' \<Rightarrow> Inr (s\<lparr>sessions := put_session x' (sessions s)\<rparr>)))"

subsection \<open>Generation controller\<close>

text \<open>
  \<open>start\<close> is refused while a generation is streaming. Otherwise it appends a pending
  assistant message to the target session and goes to streaming.
\<close>

definition start :: "nat \<Rightarrow> message list \<Rightarrow> nat \<Rightarrow> state \<Rightarrow> error + state" where
  "start sid ctx now s =
     (if controllerState s \<noteq> Idle then Inl Busy
      else case find_session sid (sessions s) of
        None \<Rightarrow> Inl NotFound
      | Some x \<Rightarrow>
          Inr (s\<lparr>sessions := put_session (append_message (pending_message (nextId s) now) now x)
                               (sessions s),
                 controllerState := Streaming sid (nextId s) ctx,
                 nextId := Suc (nextId s)\<rparr>))"

text \<open>An increment of the stream is appended to the text of the pending message.\<close>

definition increment :: "jsstring \<Rightarrow> nat \<Rightarrow> state \<Rightarrow> error + state" where
  "increment d now s =
     (case controllerState s of
        Idle \<Rightarrow> Inl InvalidState
      | Streaming sid mid ctx \<Rightarrow>
          (case find_session sid (sessions s) of
             None \<Rightarrow> Inl NotFound
           | Some x \<Rightarrow>
               (case find (\<lambda>m. msg_id m = mid) (ses_messages x) of
                  None \<Rightarrow> Inl NotFound
                | Some m \<Rightarrow>
                    (case updateText mid (msg_text m @ d) now x of
                       Inl e \<Rightarrow> Inl e
                     | Inr x' \<Rightarrow> Inr (s\<lparr>sessions := put_session x' (sessions s)\<rparr>)))))"

text \<open>
  The end of a generation: completion, cancellation (the text so far is kept and the
  message is no error) or failure (the text is replaced by the error message).
\<close>

fun finish :: "outcome \<Rightarrow> message \<Rightarrow> message" where
  "finish Completed m = m\<lparr>msg_status := Complete\<rparr>"
| "finish Cancelled m = m\<lparr>msg_status := Stopped\<rparr>"
| "finish (Failed e) m = m\<lparr>msg_text := e, msg_isError := True, msg_status := Errored\<rparr>"

definition settle :: "outcome \<Rightarrow> nat \<Rightarrow> state \<Rightarrow> error + state" where
  "settle out now s =
     (case controllerState s of
        Idle \<Rightarrow> Inl InvalidState
      | Streaming sid mid ctx \<Rightarrow>
          Inr (s\<lparr>sessions :=
                   (case find_session sid (sessions s) of
                      None \<Rightarrow> sessions s
                    | Some x \<Rightarrow>
                        put_session
                          (x\<lparr>ses_messages :=
                               map (\<lambda>m. if msg_id m = mid then finish out m else m) (ses_messages x),
                             ses_updatedAt := now\<rparr>)
                          (sessions s)),
                 controllerState := Idle\<rparr>))"

subsection \<open>Chat facade\<close>

text \<open>
  A facade operation checks its preconditions and then runs a sequence of steps of the
  components above; the states between the steps are the points during its execution.
  The specification leaves open whether an operation other than \<open>sendMessage\<close> that
  arrives during a generation is refused or cancels the generation first (section 5);
  its properties of section 8 are stated for every state, so the model cancels first, in
  all of these operations alike. The backend's stream is the source of three further
  events: an increment, the end of the stream and an error.
\<close>

datatype prim =
    Cancel
  | NewSession
  | SetCurrent nat
  | RemoveSession nat
  | ClearSessions
  | SetModel modelId
  | AppendUser jsstring "attachment option"
  | TruncateAfter nat
  | UpdateText nat jsstring
  | Start
  | Increment jsstring
  | Settle outcome

fun exec :: "nat \<Rightarrow> prim \<Rightarrow> state \<Rightarrow> error + state" where
  "exec now Cancel s = (if controllerState s = Idle then Inr s else settle Cancelled now s)"
| "exec now NewSession s =
     Inr (s\<lparr>sessions := new_session s now # sessions s,
            currentSessionId := Some (nextId s),
            nextId := Suc (nextId s)\<rparr>)"
| "exec now (SetCurrent i) s =
     (if find_session i (sessions s) = None then Inl NotFound
      else Inr (s\<lparr>currentSessionId := Some i\<rparr>))"
| "exec now (RemoveSession i) s =
     Inr (s\<lparr>sessions := filter (\<lambda>y. ses_id y \<noteq> i) (sessions s),
            currentSessionId := (if currentSessionId s = Some i then None else currentSessionId s)\<rparr>)"
| "exec now ClearSessions s = Inr (s\<lparr>sessions := [], currentSessionId := None\<rparr>)"
| "exec now (SetModel m) s = Inr (s\<lparr>currentModel := m\<rparr>)"
| "exec now (AppendUser t a) s =
     (case on_current (\<lambda>x. Inr ((append_message (user_message (nextId s) t a now) now x)
                                  \<lparr>ses_model := currentModel s\<rparr>)) s of
        Inl e \<Rightarrow> Inl e
      | Inr s' \<Rightarrow> Inr (s'\<lparr>nextId := Suc (nextId s)\<rparr>))"
| "exec now (TruncateAfter i) s = on_current (truncateAfter i now) s"
| "exec now (UpdateText i t) s = on_current (updateText i t now) s"
| "exec now Start s =
     (case current_session s of
        None \<Rightarrow> Inl NotFound
      | Some x \<Rightarrow> start (ses_id x) (ses_messages x) now s)"
| "exec now (Increment d) s = increment d now s"
| "exec now (Settle out) s = settle out now s"

datatype op =
    SendMessage jsstring "attachment option"
  | StopGeneration
  | RegenerateResponse nat
  | EditMessage nat jsstring
  | StartNewChat
  | LoadSession nat
  | DeleteSession nat
  | ClearAllSessions
  | SetCurrentModel modelId
  | StreamIncrement jsstring
  | StreamEnd
  | StreamError jsstring

definition sendMessage_plan :: "state \<Rightarrow> jsstring \<Rightarrow> attachment option \<Rightarrow> error + prim list" where
  "sendMessage_plan s t a =
     (if controllerState s \<noteq> Idle then Inl Busy
      else Inr ((if currentSessionId s = None then [NewSession] else []) @ [AppendUser t a, Start]))"

definition stopGeneration_plan :: "state \<Rightarrow> error + prim list" where
  "stopGeneration_plan s =
     (if controllerState s = Idle then Inl InvalidState else Inr [Settle Cancelled])"

text \<open>
  Regeneration needs the id of the trailing assistant message of the current session,
  the answer to the user message before it; it truncates the log after that user message.
\<close>

definition regenerateResponse_plan :: "state \<Rightarrow> nat \<Rightarrow> error + prim list" where
  "regenerateResponse_plan s i =
     (case rev (messages s) of
        a # u # _ \<Rightarrow>
          if msg_id a = i \<and> msg_sender a = Assistant \<and> msg_sender u = User
          then Inr [Cancel, TruncateAfter (msg_id u), Start]
          else Inl InvalidState
      | _ \<Rightarrow> Inl InvalidState)"

definition editMessage_plan :: "state \<Rightarrow> nat \<Rightarrow> jsstring \<Rightarrow> error + prim list" where
  "editMessage_plan s i t =
     (case find (\<lambda>m. msg_id m = i) (messages s) of
        None \<Rightarrow> Inl NotFound
      | Some m \<Rightarrow>
          if msg_sender m = User
          then Inr [Cancel, TruncateAfter i, UpdateText i t, Start]
          else Inl InvalidState)"

definition loadSession_plan :: "state \<Rightarrow> nat \<Rightarrow> error + prim list" where
  "loadSession_plan s i =
     (if find_session i (sessions s) = None then Inl NotFound else Inr [Cancel, SetCurrent i])"

fun plan :: "op \<Rightarrow> state \<Rightarrow> error + prim list" where
  "plan (SendMessage t a) s = sendMessage_plan s t a"
| "plan StopGeneration s = stopGeneration_plan s"
| "plan (RegenerateResponse i) s = regenerateResponse_plan s i"
| "plan (EditMessage i t) s = editMessage_plan s i t"
| "plan StartNewChat s = Inr [Cancel, NewSession]"
| "plan (LoadSession i) s = loadSession_plan s i"
| "plan (DeleteSession i) s = Inr [Cancel, RemoveSession i]"
| "plan ClearAllSessions s = Inr [Cancel, ClearSessions]"
| "plan (SetCurrentModel m) s = Inr [SetModel m]"
| "plan (StreamIncrement d) s = Inr [Increment d]"
| "plan StreamEnd s = Inr [Settle Completed]"
| "plan (StreamError e) s = Inr [Settle (Failed e)]"

text \<open>
  Running the steps: the result is the error, if any, and the state reached; a refused
  operation leaves the state as it was. \<open>exec_trace\<close> lists the states after each step.
\<close>

fun exec_all :: "nat \<Rightarrow> prim list \<Rightarrow> state \<Rightarrow> error option \<times> state" where
  "exec_all now [] s = (None, s)"
| "exec_all now (p # ps) s =
     (case exec now p s of Inl e \<Rightarrow> (Some e, s) | Inr s' \<Rightarrow> exec_all now ps s')"

fun exec_trace :: "nat \<Rightarrow> prim list \<Rightarrow> state \<Rightarrow> state list" where
  "exec_trace now [] s = []"
| "exec_trace now (p # ps) s =
     (case exec now p s of Inl e \<Rightarrow> [] | Inr s' \<Rightarrow> s' # exec_trace now ps s')"

definition facade :: "nat \<Rightarrow> op \<Rightarrow> state \<Rightarrow> error option \<times> state" where
  "facade now ev s = (case plan ev s of Inl e \<Rightarrow> (Some e, s) | Inr ps \<Rightarrow> exec_all now ps s)"

definition facade_trace :: "nat \<Rightarrow> op \<Rightarrow> state \<Rightarrow> state list" where
  "facade_trace now ev s = (case plan ev s of Inl e \<Rightarrow> [] | Inr ps \<Rightarrow> exec_trace now ps s)"

definition sendMessage :: "jsstring \<Rightarrow> attachment option \<Rightarrow> nat \<Rightarrow> state \<Rightarrow> error option \<times> state" where
  "sendMessage t a now s = facade now (SendMessage t a) s"

definition stopGeneration :: "nat \<Rightarrow> state \<Rightarrow> error option \<times> state" where
  "stopGeneration now s = facade now StopGeneration s"

definition regenerateResponse :: "nat \<Rightarrow> nat \<Rightarrow> state \<Rightarrow> error option \<times> state" where
  "regenerateResponse i now s = facade now (RegenerateResponse i) s"

definition editMessage :: "nat \<Rightarrow> jsstring \<Rightarrow> nat \<Rightarrow> state \<Rightarrow> error option \<times> state" where
  "editMessage i t now s = facade now (EditMessage i t) s"

definition startNewChat :: "nat \<Rightarrow> state \<Rightarrow> error option \<times> state" where
  "startNewChat now s = facade now StartNewChat s"

definition loadSession :: "nat \<Rightarrow> nat \<Rightarrow> state \<Rightarrow> error option \<times> state" where
  "loadSession i now s = facade now (LoadSession i) s"

definition deleteSession :: "nat \<Rightarrow> nat \<Rightarrow> state \<Rightarrow> error option \<times> state" where
  "deleteSession i now s = facade now (DeleteSession i) s"

definition clearAllSessions :: "nat \<Rightarrow> state \<Rightarrow> error option \<times> state" where
  "clearAllSessions now s = facade now ClearAllSessions s"

text \<open>
  A run is a sequence of timed operations and stream events; \<open>all_points\<close> lists every
  state a run passes through, the states between the steps of an operation included.
\<close>

fun run :: "(nat \<times> op) list \<Rightarrow> state \<Rightarrow> state" where
  "run [] s = s"
| "run (e # es) s = run es (snd (facade (fst e) (snd e) s))"

fun all_points :: "(nat \<times> op) list \<Rightarrow> state \<Rightarrow> state list" where
  "all_points [] s = [s]"
| "all_points (e # es) s =
     s # facade_trace (fst e) (snd e) s @ all_points es (snd (facade (fst e) (snd e) s))"

subsection \<open>The invariants of the store\<close>

definition pending_count :: "state \<Rightarrow> nat" where
  "pending_count s =
     sum_list (map (\<lambda>x. length (filter (\<lambda>m. msg_status m = Pending) (ses_messages x))) (sessions s))"

definition starts_with_assistant :: "message list \<Rightarrow> bool" where
  "starts_with_assistant ms = (case ms of [] \<Rightarrow> False | m # _ \<Rightarrow> msg_sender m = Assistant)"

fun consecutive_assistants :: "message list \<Rightarrow> bool" where
  "consecutive_assistants [] = False"
| "consecutive_assistants [m] = False"
| "consecutive_assistants (a # b # ms) =
     ((msg_sender a = Assistant \<and> msg_sender b = Assistant) \<or> consecutive_assistants (b # ms))"

definition alternation :: "message list \<Rightarrow> bool" where
  "alternation ms \<longleftrightarrow> \<not> starts_with_assistant ms \<and> \<not> consecutive_assistants ms"

text \<open>
  A well-formed session: its identifiers are below the counter, the identifiers of its
  messages differ, its log alternates, only an assistant message that is no error is
  pending, and only the last message is.
\<close>

definition good :: "nat \<Rightarrow> session \<Rightarrow> bool" where
  "good n x \<longleftrightarrow>
     ses_id x < n \<and> distinct (map msg_id (ses_messages x)) \<and>
     list_all (\<lambda>m. msg_id m < n) (ses_messages x) \<and>
     alternation (ses_messages x) \<and>
     list_all (\<lambda>m. msg_status m = Pending \<longrightarrow> msg_sender m = Assistant \<and> \<not> msg_isError m)
       (ses_messages x) \<and>
     list_all (\<lambda>m. msg_status m \<noteq> Pending) (butlast (ses_messages x))"

definition handle_ok :: "state \<Rightarrow> bool" where
  "handle_ok s =
     (case controllerState s of
        Idle \<Rightarrow> list_all (\<lambda>x. list_all (\<lambda>m. msg_status m \<noteq> Pending) (ses_messages x)) (sessions s)
      | Streaming sid mid ctx \<Rightarrow>
          (case find_session sid (sessions s) of
             None \<Rightarrow> False
           | Some x \<Rightarrow> ses_messages x \<noteq> [] \<and> msg_id (last (ses_messages x)) = mid \<and>
                       msg_status (last (ses_messages x)) = Pending) \<and>
          list_all (\<lambda>y. ses_id y = sid \<or> list_all (\<lambda>m. msg_status m \<noteq> Pending) (ses_messages y))
            (sessions s))"

definition current_ok :: "state \<Rightarrow> bool" where
  "current_ok s =
     (case currentSessionId s of None \<Rightarrow> True | Some i \<Rightarrow> find_session i (sessions s) \<noteq> None)"

definition inv :: "state \<Rightarrow> bool" where
  "inv s \<longleftrightarrow>
     distinct (map ses_id (sessions s)) \<and> list_all (good (nextId s)) (sessions s) \<and>
     handle_ok s \<and> current_ok s"

subsection \<open>What the steps of an operation rely on\<close>

text \<open>
  A generation is started on a log that ends in a user message; the steps that change the
  collection or cut a log run while the controller is idle. \<open>stop_pending\<close> is what
  cancelling does to a message, and \<open>user_at\<close> says that an id names a user message of
  the current session.
\<close>

definition ready :: "state \<Rightarrow> bool" where
  "ready s =
     (case current_session s of
        None \<Rightarrow> False
      | Some x \<Rightarrow> ses_messages x \<noteq> [] \<and> msg_sender (last (ses_messages x)) = User)"

fun step_ok :: "prim \<Rightarrow> state \<Rightarrow> bool" where
  "step_ok (RemoveSession i) s = (controllerState s = Idle)"
| "step_ok ClearSessions s = (controllerState s = Idle)"
| "step_ok (AppendUser t a) s = (controllerState s = Idle)"
| "step_ok (TruncateAfter i) s = (controllerState s = Idle)"
| "step_ok Start s = ready s"
| "step_ok p s = True"

definition stop_pending :: "message \<Rightarrow> message" where
  "stop_pending m = (if msg_status m = Pending then m\<lparr>msg_status := Stopped\<rparr> else m)"

definition user_at :: "nat \<Rightarrow> state \<Rightarrow> bool" where
  "user_at j s =
     (case find (\<lambda>m. msg_id m = j) (messages s) of None \<Rightarrow> False | Some m \<Rightarrow> msg_sender m = User)"

section \<open>Examples\<close>

text \<open>
  Two bubbles on the message "hi"; a session whose title is the Greek word for street in
  capitals, U+039F U+0394 U+039F U+03A3; and a run of the store, in which a message is
  sent and edited while its answer streams, a second message is sent during the new
  generation, the answer ends and is regenerated, a new chat is begun and written to,
  and the first session is deleted.
\<close>

definition bubble_hi :: "jsstring \<Rightarrow> chatBubble" where
  "bubble_hi t =
     \<lparr>message = \<lparr>msg_id = 7, msg_sender = User, msg_text = js ''hi'', msg_attachment = None,
         msg_timestamp = 0, msg_isError = False, msg_status = Complete\<rparr>,
      onEdit = True, isEditing = True, editedText = t\<rparr>"

definition odos :: session where
  "odos = \<lparr>ses_id = 1, ses_title = [0x39F, 0x394, 0x39F, 0x3A3], ses_messages = [],
     ses_createdAt = 0, ses_updatedAt = 0, ses_model = Gemini3FlashPreview\<rparr>"

definition demo_run :: "(nat \<times> op) list" where
  "demo_run =
     [(1, SendMessage (js ''hi'') None), (2, StreamIncrement (js ''Hel'')),
      (3, EditMessage 1 (js ''yo'')), (4, StreamIncrement (js ''Hey'')),
      (5, SendMessage (js ''more'') None), (6, StreamEnd), (7, RegenerateResponse 3),
      (8, StartNewChat), (9, SendMessage (js ''again'') None), (10, DeleteSession 0)]"

section \<open>Properties of the string functions\<close>

lemma startsWith_iff: "startsWith s q \<longleftrightarrow> (\<exists>after. s = q @ after)"
  by (induction s q rule: startsWith.induct) auto

lemma js_includes_iff: "js_includes s q \<longleftrightarrow> (\<exists>before after. s = before @ q @ after)"
proof (induction s)
  case Nil
  then show ?case by auto
next
  case (Cons c s)
  show ?case
  proof
    assume "js_includes (c # s) q"
    then consider "startsWith (c # s) q" | "js_includes s q" by auto
    then show "\<exists>before after. c # s = before @ q @ after"
    proof cases
      case 1
      then obtain after where "c # s = q @ after" using startsWith_iff by blast
      then have "c # s = [] @ q @ after" by simp
      then show ?thesis by blast
    next
      case 2
      then obtain before after where "s = before @ q @ after" using Cons.IH by blast
      then have "c # s = (c # before) @ q @ after" by simp
      then show ?thesis by blast
    qed
  next
    assume "\<exists>before after. c # s = before @ q @ after"
    then obtain before after where eq: "c # s = before @ q @ after" by blast
    show "js_includes (c # s) q"
    proof (cases before)
      case Nil
      with eq have "startsWith (c # s) q" using startsWith_iff by auto
      then show ?thesis by simp
    next
      case (Cons b before')
      with eq have "s = before' @ q @ after" by simp
      then have "js_includes s q" using Cons.IH by blast
      then show ?thesis by simp
    qed
  qed
qed

lemma of_char_less: "(of_char x :: nat) < 65536"
proof -
  have "(of_char x :: nat) mod 256 < 256" by simp
  moreover have "(of_char x :: nat) mod 256 = of_char x" by (rule of_char_mod_256)
  ultimately have "(of_char x :: nat) < 256" by simp
  then show ?thesis by linarith
qed

lemma js_eq_iff [simp]: "js a = js b \<longleftrightarrow> a = b"
proof -
  have "inj (\<lambda>c::char. (word_of_nat (of_char c) :: 16 word))"
  proof (rule injI)
    fix x y :: char
    assume "(word_of_nat (of_char x) :: 16 word) = word_of_nat (of_char y)"
    then have "unat (word_of_nat (of_char x) :: 16 word) = unat (word_of_nat (of_char y) :: 16 word)"
      by simp
    then have "(of_char x :: nat) = of_char y"
      using of_char_less [of x] of_char_less [of y] by (simp add: unat_of_nat)
    then show "x = y" by simp
  qed
  then show ?thesis
    unfolding js_def by (simp add: inj_map_eq_map)
qed

section \<open>Saving an edit\<close>

text \<open>
  Claim C9. For every message and every edited text, \<open>handleSaveEdit\<close> calls \<open>onEdit\<close>,
  with the message's id and the edited text as typed (not trimmed), exactly when the
  trimmed edited text differs from the message's text; when they are equal it makes no
  call, so nothing is truncated or generated again. In both cases edit mode is left and
  the edited text stays as it is.
\<close>

theorem handleSaveEdit_dispatch:
  assumes "onEdit b"
  shows "fst (handleSaveEdit b) =
           (if trim (editedText b) \<noteq> msg_text (message b)
            then [(msg_id (message b), editedText b)] else [])
         \<and> (fst (handleSaveEdit b) \<noteq> [] \<longleftrightarrow> trim (editedText b) \<noteq> msg_text (message b))
         \<and> isEditing (snd (handleSaveEdit b)) = False
         \<and> editedText (snd (handleSaveEdit b)) = editedText b"
  using assms by (simp add: handleSaveEdit_def)

lemma trim_examples:
  "trim (js '' hi there '') = js ''hi there''" "trim (js '' hi '') = js ''hi''"
  by (simp_all add: trim_def js_def isWhiteSpace_def)

theorem handleSaveEdit_dispatch_witness:
  "onEdit (bubble_hi (js '' hi there ''))
   \<and> fst (handleSaveEdit (bubble_hi (js '' hi there ''))) = [(7, js '' hi there '')]
   \<and> onEdit (bubble_hi (js '' hi ''))
   \<and> fst (handleSaveEdit (bubble_hi (js '' hi ''))) = []
   \<and> isEditing (snd (handleSaveEdit (bubble_hi (js '' hi '')))) = False"
proof -
  have h1: "onEdit (bubble_hi (js '' hi there ''))" and h2: "onEdit (bubble_hi (js '' hi ''))"
    by (simp_all add: bubble_hi_def)
  show ?thesis
    using h1 h2 handleSaveEdit_dispatch [OF h1] handleSaveEdit_dispatch [OF h2]
    by (simp add: bubble_hi_def trim_examples)
qed

section \<open>Filtering the sessions\<close>

text \<open>
  The filter keeps the sessions whose lower-cased title holds the lower-cased query,
  in their order. It is a search that ignores case only as far as lower-casing two texts
  apart gives the same letters. The host lower-cases the title U+039F U+0394 U+039F U+03A3
  to U+03BF U+03B4 U+03BF U+03C2, with the final sigma, and the query U+03A3 alone to
  U+03C3: the session is left out, although its title contains the query as it is written.
\<close>

lemma filteredSessions_lowered:
  "filteredSessions toLowerCase ss searchQuery =
     filter (\<lambda>x. \<exists>before after. toLowerCase (ses_title x) = before @ toLowerCase searchQuery @ after) ss"
  by (simp add: filteredSessions_def js_includes_iff)

lemma filteredSessions_final_sigma:
  assumes "toLowerCase [0x39F, 0x394, 0x39F, 0x3A3] = [0x3BF, 0x3B4, 0x3BF, 0x3C2]"
    and "toLowerCase [0x3A3] = [0x3C3]"
  shows "filteredSessions toLowerCase [odos] [0x3A3] = []"
    and "ses_title odos = [0x39F, 0x394, 0x39F] @ [0x3A3] @ []"
  using assms by (simp_all add: filteredSessions_def odos_def)

section \<open>Properties of the store\<close>

subsection \<open>Sessions in the collection\<close>

lemma find_session_Some: "find_session i ss = Some x \<Longrightarrow> ses_id x = i \<and> x \<in> set ss"
  by (auto simp: find_session_def find_Some_iff)

lemma find_session_None: "find_session i ss = None \<longleftrightarrow> i \<notin> ses_id ` set ss"
  by (auto simp: find_session_def find_None_iff)

lemma find_filter_other: "(\<And>y. P y \<Longrightarrow> Q y) \<Longrightarrow> find P (filter Q ss) = find P ss"
  by (induction ss) auto

lemma find_session_put:
  "find_session i (put_session x ss) = (if ses_id x = i then Some x else find_session i ss)"
  by (auto simp: find_session_def put_session_def intro: find_filter_other)

lemma find_session_remove:
  "find_session i (filter (\<lambda>y. ses_id y \<noteq> j) ss) = (if i = j then None else find_session i ss)"
  by (auto simp: find_session_def find_None_iff intro: find_filter_other)

lemma set_put_session: "set (put_session x ss) = insert x {y \<in> set ss. ses_id y \<noteq> ses_id x}"
  by (auto simp: put_session_def)

lemma distinct_put_session:
  "distinct (map ses_id ss) \<Longrightarrow> distinct (map ses_id (put_session x ss))"
  by (auto simp: put_session_def distinct_map_filter)

lemma list_all_put_session: "P x \<Longrightarrow> list_all P ss \<Longrightarrow> list_all P (put_session x ss)"
  by (auto simp: put_session_def list_all_iff)

subsection \<open>Alternation\<close>

lemma consecutive_append:
  "consecutive_assistants (ms @ [m]) \<longleftrightarrow>
     consecutive_assistants ms \<or> (ms \<noteq> [] \<and> msg_sender (last ms) = Assistant \<and> msg_sender m = Assistant)"
  by (induction ms rule: consecutive_assistants.induct) auto

lemma consecutive_prefix: "consecutive_assistants ms \<Longrightarrow> consecutive_assistants (ms @ ms')"
proof (induction ms rule: consecutive_assistants.induct)
  case (3 a b ms)
  then show ?case by auto
qed auto

lemma consecutive_map:
  "(\<And>m. msg_sender (f m) = msg_sender m) \<Longrightarrow> consecutive_assistants (map f ms) = consecutive_assistants ms"
  by (induction ms rule: consecutive_assistants.induct) auto

lemma alternation_Nil [simp]: "alternation []"
  by (simp add: alternation_def starts_with_assistant_def)

lemma starts_append:
  "starts_with_assistant (ms @ [m]) =
     (if ms = [] then msg_sender m = Assistant else starts_with_assistant ms)"
  by (cases ms) (simp_all add: starts_with_assistant_def)

lemma starts_map:
  "(\<And>m. msg_sender (f m) = msg_sender m) \<Longrightarrow> starts_with_assistant (map f ms) = starts_with_assistant ms"
  by (cases ms) (simp_all add: starts_with_assistant_def)

lemma not_Assistant: "s \<noteq> Assistant \<longleftrightarrow> s = User"
  by (cases s) simp_all

lemma alternation_append:
  "alternation (ms @ [m]) \<longleftrightarrow>
     alternation ms \<and> (msg_sender m = Assistant \<longrightarrow> ms \<noteq> [] \<and> msg_sender (last ms) = User)"
  unfolding alternation_def consecutive_append starts_append
  using not_Assistant [of "msg_sender (last ms)"]
  by (auto simp: starts_with_assistant_def)

lemma alternation_prefix: "alternation (ms @ ms') \<Longrightarrow> alternation ms"
proof -
  assume h: "alternation (ms @ ms')"
  have "\<not> consecutive_assistants ms"
    using h consecutive_prefix [of ms ms'] by (auto simp: alternation_def)
  moreover have "\<not> starts_with_assistant ms"
    using h by (cases ms) (simp_all add: alternation_def starts_with_assistant_def)
  ultimately show ?thesis by (simp add: alternation_def)
qed

lemma alternation_map:
  "(\<And>m. msg_sender (f m) = msg_sender m) \<Longrightarrow> alternation (map f ms) = alternation ms"
  by (simp add: alternation_def consecutive_map starts_map)

subsection \<open>Truncation\<close>

lemma keep_through_Some:
  "keep_through i ms = Some ms' \<Longrightarrow>
     (\<exists>rest. ms = ms' @ rest) \<and> ms' \<noteq> [] \<and> msg_id (last ms') = i \<and>
     find (\<lambda>m. msg_id m = i) ms = Some (last ms')"
proof (induction ms arbitrary: ms')
  case Nil
  then show ?case by simp
next
  case (Cons m ms)
  show ?case
  proof (cases "msg_id m = i")
    case True
    with Cons.prems show ?thesis by auto
  next
    case False
    with Cons.prems obtain k where k: "keep_through i ms = Some k" and ms': "ms' = m # k"
      by auto
    from Cons.IH [OF k] show ?thesis using False ms' by auto
  qed
qed

lemma keep_through_None: "keep_through i ms = None \<longleftrightarrow> find (\<lambda>m. msg_id m = i) ms = None"
  by (induction ms) auto

subsection \<open>Well-formed sessions\<close>

lemma good_mono: "good n x \<Longrightarrow> n \<le> k \<Longrightarrow> good k x"
  by (auto simp: good_def list_all_iff)

lemma good_new_session: "good (Suc (nextId s)) (new_session s now)"
  by (simp add: good_def new_session_def)

lemma good_append_user:
  assumes "good n x" and "list_all (\<lambda>m. msg_status m \<noteq> Pending) (ses_messages x)"
  shows "good (Suc n) ((append_message (user_message n t a now) now x)\<lparr>ses_model := md\<rparr>)"
  using assms
  by (auto simp: good_def append_message_def user_message_def list_all_iff alternation_append)

lemma good_append_pending:
  assumes "good n x" and "list_all (\<lambda>m. msg_status m \<noteq> Pending) (ses_messages x)"
    and "ses_messages x \<noteq> []" and "msg_sender (last (ses_messages x)) = User"
  shows "good (Suc n) (append_message (pending_message n now) now x)"
  using assms
  by (auto simp: good_def append_message_def pending_message_def list_all_iff alternation_append)

lemma set_butlast_prefix: "set (butlast ms) \<subseteq> set (butlast (ms @ rest))"
  by (cases rest) (auto simp: butlast_append dest: in_set_butlastD)

lemma good_truncate:
  assumes "good n x" and "truncateAfter i now x = Inr x'"
  shows "good n x'" and "ses_id x' = ses_id x"
proof -
  from assms(2) obtain ms where k: "keep_through i (ses_messages x) = Some ms"
    and x': "x' = x\<lparr>ses_messages := ms, ses_updatedAt := now\<rparr>"
    by (auto simp: truncateAfter_def split: option.splits)
  from keep_through_Some [OF k] obtain rest where r: "ses_messages x = ms @ rest" by blast
  show "ses_id x' = ses_id x" using x' by simp
  have "alternation ms" using assms(1) r alternation_prefix by (auto simp: good_def)
  moreover have "list_all (\<lambda>m. msg_status m \<noteq> Pending) (butlast ms)"
    using assms(1) r set_butlast_prefix [of ms rest] by (auto simp: good_def list_all_iff)
  ultimately show "good n x'"
    using assms(1) r x' by (auto simp: good_def list_all_iff)
qed

lemma good_map:
  assumes "good n x"
    and "\<And>m. msg_id (f m) = msg_id m" and "\<And>m. msg_sender (f m) = msg_sender m"
    and "\<And>m. msg_status (f m) = Pending \<Longrightarrow> msg_status m = Pending \<and> msg_isError (f m) = msg_isError m"
  shows "good n (x\<lparr>ses_messages := map f (ses_messages x), ses_updatedAt := now\<rparr>)"
proof -
  have "msg_id \<circ> f = msg_id"
    using assms(2) by auto
  moreover have "alternation (map f (ses_messages x))"
    using assms(1,3) by (simp add: alternation_map good_def)
  ultimately show ?thesis
    using assms by (auto simp: good_def list_all_iff map_butlast [symmetric])
qed

lemma good_updateText:
  assumes "good n x" and "updateText i t now x = Inr x'"
  shows "good n x'" and "ses_id x' = ses_id x"
proof -
  from assms(2) have x': "x' = x\<lparr>ses_messages :=
      map (\<lambda>m. if msg_id m = i then m\<lparr>msg_text := t\<rparr> else m) (ses_messages x), ses_updatedAt := now\<rparr>"
    by (auto simp: updateText_def split: option.splits if_splits)
  show "ses_id x' = ses_id x" using x' by simp
  show "good n x'" unfolding x' by (rule good_map [OF assms(1)]) (auto split: if_splits)
qed

lemma on_current_Inr:
  assumes "on_current f s = Inr s'"
  obtains i x x' where "currentSessionId s = Some i" and "find_session i (sessions s) = Some x"
    and "f x = Inr x'" and "s' = s\<lparr>sessions := put_session x' (sessions s)\<rparr>"
  using assms
  by (auto simp: on_current_def current_session_def split: option.splits sum.splits)

lemma current_ok_put:
  assumes "current_ok s" and "currentSessionId s' = currentSessionId s"
    and "sessions s' = put_session x' (sessions s)"
  shows "current_ok s'"
  using assms by (auto simp: current_ok_def find_session_put split: option.splits)

lemma inv_put_idle:
  assumes "inv s" and "controllerState s = Idle"
    and "find_session i (sessions s) = Some x" and "ses_id x' = i"
    and "good k x'" and "nextId s \<le> k"
    and "list_all (\<lambda>m. msg_status m \<noteq> Pending) (ses_messages x')"
  shows "inv (s\<lparr>sessions := put_session x' (sessions s), nextId := k\<rparr>)"
proof -
  have "list_all (good k) (sessions s)"
    using assms(1,6) good_mono by (auto simp: inv_def list_all_iff)
  then have "list_all (good k) (put_session x' (sessions s))"
    using assms(5) by (rule list_all_put_session [rotated])
  moreover have "list_all (\<lambda>x. list_all (\<lambda>m. msg_status m \<noteq> Pending) (ses_messages x)) (sessions s)"
    using assms(1,2) by (simp add: inv_def handle_ok_def)
  then have "list_all (\<lambda>x. list_all (\<lambda>m. msg_status m \<noteq> Pending) (ses_messages x))
      (put_session x' (sessions s))"
    using assms(7) by (intro list_all_put_session)
  then have "handle_ok (s\<lparr>sessions := put_session x' (sessions s), nextId := k\<rparr>)"
    using assms(2) by (simp add: handle_ok_def)
  moreover have "current_ok (s\<lparr>sessions := put_session x' (sessions s), nextId := k\<rparr>)"
    by (rule current_ok_put [where s = s and x' = x']) (use assms(1) in \<open>simp_all add: inv_def\<close>)
  ultimately show ?thesis
    using assms(1) by (simp add: inv_def distinct_put_session)
qed

lemma inv_map_session:
  assumes "inv s" and "find_session i (sessions s) = Some x"
    and "\<And>m. msg_id (f m) = msg_id m" and "\<And>m. msg_sender (f m) = msg_sender m"
    and "\<And>m. msg_status (f m) = msg_status m" and "\<And>m. msg_isError (f m) = msg_isError m"
  shows "inv (s\<lparr>sessions := put_session (x\<lparr>ses_messages := map f (ses_messages x), ses_updatedAt := now\<rparr>)
                  (sessions s)\<rparr>)"
proof -
  let ?x' = "x\<lparr>ses_messages := map f (ses_messages x), ses_updatedAt := now\<rparr>"
  let ?s' = "s\<lparr>sessions := put_session ?x' (sessions s)\<rparr>"
  have x: "ses_id x = i" "x \<in> set (sessions s)" using find_session_Some [OF assms(2)] by auto
  have gx: "good (nextId s) x" using assms(1) x by (auto simp: inv_def list_all_iff)
  have "good (nextId s) ?x'"
    by (rule good_map [OF gx]) (simp_all add: assms)
  moreover have "list_all (good (nextId s)) (sessions s)"
    using assms(1) by (simp add: inv_def)
  ultimately have g: "list_all (good (nextId s)) (put_session ?x' (sessions s))"
    by (rule list_all_put_session)
  have st: "list_all (\<lambda>m. msg_status m \<noteq> Pending) (map f ms) = list_all (\<lambda>m. msg_status m \<noteq> Pending) ms" for ms
    by (simp add: list_all_iff assms(5))
  have h: "handle_ok ?s'"
  proof (cases "controllerState s")
    case Idle
    then show ?thesis
      using assms(1) x by (auto simp: inv_def handle_ok_def list_all_iff set_put_session assms(5))
  next
    case (Streaming sid mid ctx)
    have "list_all (\<lambda>y. ses_id y = sid \<or> list_all (\<lambda>m. msg_status m \<noteq> Pending) (ses_messages y))
            (put_session ?x' (sessions s))"
      using assms(1) x Streaming
      by (auto simp: inv_def handle_ok_def list_all_iff set_put_session assms(5))
    moreover have "case find_session sid (put_session ?x' (sessions s)) of None \<Rightarrow> False
        | Some x \<Rightarrow> ses_messages x \<noteq> [] \<and> msg_id (last (ses_messages x)) = mid \<and>
                       msg_status (last (ses_messages x)) = Pending"
      using assms(1,2) x Streaming
      by (auto simp: inv_def handle_ok_def find_session_put last_map assms(3,5) split: option.splits)
    ultimately show ?thesis using Streaming by (simp add: handle_ok_def)
  qed
  have "current_ok ?s'"
    by (rule current_ok_put [where s = s and x' = ?x']) (use assms(1) in \<open>simp_all add: inv_def\<close>)
  then show ?thesis
    using assms(1) g h by (simp add: inv_def distinct_put_session)
qed

lemma inv_settle:
  assumes "inv s" and "settle out now s = Inr s'"
  shows "inv s'" and "controllerState s' = Idle"
proof -
  from assms(2) obtain sid mid ctx where c: "controllerState s = Streaming sid mid ctx"
    by (auto simp: settle_def split: controller.splits)
  from assms(1) c obtain x where f: "find_session sid (sessions s) = Some x"
    and l: "ses_messages x \<noteq> []" "msg_id (last (ses_messages x)) = mid"
    and others: "list_all (\<lambda>y. ses_id y = sid \<or> list_all (\<lambda>m. msg_status m \<noteq> Pending) (ses_messages y)) (sessions s)"
    by (auto simp: inv_def handle_ok_def split: option.splits)
  let ?f = "\<lambda>m. if msg_id m = mid then finish out m else m"
  let ?x' = "x\<lparr>ses_messages := map ?f (ses_messages x), ses_updatedAt := now\<rparr>"
  have s': "s' = s\<lparr>sessions := put_session ?x' (sessions s), controllerState := Idle\<rparr>"
    using assms(2) c f by (simp add: settle_def)
  show "controllerState s' = Idle" using s' by simp
  have x: "ses_id x = sid" "x \<in> set (sessions s)" using find_session_Some [OF f] by auto
  have gx: "good (nextId s) x" using assms(1) x by (auto simp: inv_def list_all_iff)
  have fin: "msg_id (finish out m) = msg_id m \<and> msg_sender (finish out m) = msg_sender m
      \<and> msg_status (finish out m) \<noteq> Pending" for m
    by (cases out) simp_all
  have "good (nextId s) ?x'"
    by (rule good_map [OF gx]) (auto simp: fin split: if_splits)
  moreover have "list_all (good (nextId s)) (sessions s)"
    using assms(1) by (simp add: inv_def)
  ultimately have g: "list_all (good (nextId s)) (put_session ?x' (sessions s))"
    by (rule list_all_put_session)
  have "ses_messages x = butlast (ses_messages x) @ [last (ses_messages x)]"
    using l by simp
  then have "set (ses_messages x) = set (butlast (ses_messages x)) \<union> {last (ses_messages x)}"
    by (metis list.simps(15) set_append empty_set)
  then have np: "list_all (\<lambda>m. msg_status m \<noteq> Pending) (map ?f (ses_messages x))"
    using gx l by (auto simp: good_def list_all_iff fin)
  have h: "list_all (\<lambda>x. list_all (\<lambda>m. msg_status m \<noteq> Pending) (ses_messages x))
             (put_session ?x' (sessions s))"
    using others np x by (auto simp: list_all_iff set_put_session)
  have "current_ok s'"
    by (rule current_ok_put [where s = s and x' = ?x']) (use assms(1) s' in \<open>simp_all add: inv_def\<close>)
  then show "inv s'"
    using assms(1) g h s' by (simp add: inv_def distinct_put_session handle_ok_def)
qed

lemma current_session_Some:
  "current_session s = Some x \<Longrightarrow>
     currentSessionId s = Some (ses_id x) \<and> find_session (ses_id x) (sessions s) = Some x"
  by (auto simp: current_session_def split: option.splits dest: find_session_Some)

lemma idle_no_pending:
  "inv s \<Longrightarrow> controllerState s = Idle \<Longrightarrow> x \<in> set (sessions s) \<Longrightarrow>
     list_all (\<lambda>m. msg_status m \<noteq> Pending) (ses_messages x)"
  by (auto simp: inv_def handle_ok_def list_all_iff)

lemma inv_good: "inv s \<Longrightarrow> x \<in> set (sessions s) \<Longrightarrow> good (nextId s) x"
  by (auto simp: inv_def list_all_iff)

lemma handle_ok_same:
  "sessions s' = sessions s \<Longrightarrow> controllerState s' = controllerState s \<Longrightarrow> handle_ok s' = handle_ok s"
  by (simp add: handle_ok_def split: controller.splits)

lemma current_ok_same:
  "sessions s' = sessions s \<Longrightarrow> currentSessionId s' = currentSessionId s \<Longrightarrow> current_ok s' = current_ok s"
  by (simp add: current_ok_def split: option.splits)

lemma inv_same:
  assumes "inv s" and "sessions s' = sessions s" and "controllerState s' = controllerState s"
    and "nextId s' = nextId s" and "current_ok s'"
  shows "inv s'"
  using assms handle_ok_same [of s' s] by (simp add: inv_def)

lemma same_nextId: "s\<lparr>sessions := a, nextId := nextId s\<rparr> = s\<lparr>sessions := a\<rparr>"
  by simp

lemma inv_NewSession:
  assumes "inv s" shows "inv (s\<lparr>sessions := new_session s now # sessions s,
            currentSessionId := Some (nextId s), nextId := Suc (nextId s)\<rparr>)"
proof -
  have "list_all (good (Suc (nextId s))) (sessions s)"
    using assms good_mono [where k = "Suc (nextId s)"] by (auto simp: inv_def list_all_iff)
  moreover have "nextId s \<notin> ses_id ` set (sessions s)"
    using assms by (auto simp: inv_def list_all_iff good_def)
  moreover have nf: "find_session i (new_session s now # sessions s) =
      (if i = nextId s then Some (new_session s now) else find_session i (sessions s))" for i
    by (auto simp: find_session_def new_session_def)
  moreover have "handle_ok (s\<lparr>sessions := new_session s now # sessions s,
            currentSessionId := Some (nextId s), nextId := Suc (nextId s)\<rparr>)"
  proof (cases "controllerState s")
    case Idle
    then show ?thesis using assms by (simp add: inv_def handle_ok_def new_session_def)
  next
    case (Streaming sid mid ctx)
    then have "find_session sid (sessions s) \<noteq> None"
      using assms by (auto simp: inv_def handle_ok_def split: option.splits)
    then have "sid \<in> ses_id ` set (sessions s)"
      by (simp add: find_session_None)
    then have "sid \<noteq> nextId s"
      using \<open>nextId s \<notin> ses_id ` set (sessions s)\<close> by blast
    then show ?thesis
      using assms Streaming by (simp add: inv_def handle_ok_def nf) (simp add: new_session_def)
  qed
  ultimately show ?thesis
    using assms by (simp add: inv_def good_new_session current_ok_def) (simp add: new_session_def)
qed

lemma inv_RemoveSession:
  assumes "inv s" and "controllerState s = Idle"
  shows "inv (s\<lparr>sessions := filter (\<lambda>y. ses_id y \<noteq> i) (sessions s),
            currentSessionId := (if currentSessionId s = Some i then None else currentSessionId s)\<rparr>)"
  using assms
  by (auto simp: inv_def handle_ok_def current_ok_def list_all_iff distinct_map_filter
      find_session_remove split: option.splits)

lemma inv_Start:
  assumes "inv s" and "ready s" and "exec now Start s = Inr s'"
  shows "inv s'"
proof -
  from assms(2) obtain x where cs: "current_session s = Some x"
    and r: "ses_messages x \<noteq> []" "msg_sender (last (ses_messages x)) = User"
    by (auto simp: ready_def split: option.splits)
  from current_session_Some [OF cs] have f: "find_session (ses_id x) (sessions s) = Some x" by simp
  from assms(3) cs f have idle: "controllerState s = Idle"
    by (auto simp: start_def split: if_splits)
  let ?x' = "append_message (pending_message (nextId s) now) now x"
  have s': "s' = s\<lparr>sessions := put_session ?x' (sessions s),
      controllerState := Streaming (ses_id x) (nextId s) (ses_messages x), nextId := Suc (nextId s)\<rparr>"
    using assms(3) cs f idle by (simp add: start_def)
  have xin: "x \<in> set (sessions s)" using find_session_Some [OF f] by simp
  have np: "list_all (\<lambda>m. msg_status m \<noteq> Pending) (ses_messages x)"
    using idle_no_pending [OF assms(1) idle xin] .
  have "good (Suc (nextId s)) ?x'"
    using good_append_pending [OF inv_good [OF assms(1) xin] np r] .
  moreover have "list_all (good (Suc (nextId s))) (sessions s)"
    using assms(1) good_mono [where k = "Suc (nextId s)"] by (auto simp: inv_def list_all_iff)
  ultimately have g: "list_all (good (Suc (nextId s))) (put_session ?x' (sessions s))"
    by (simp add: list_all_put_session)
  have id: "ses_id ?x' = ses_id x" by (simp add: append_message_def)
  have h: "handle_ok s'"
    using assms(1) idle unfolding s'
    by (auto simp: handle_ok_def find_session_put id inv_def list_all_iff set_put_session)
       (simp_all add: append_message_def pending_message_def)
  have "current_ok s'"
    by (rule current_ok_put [where s = s and x' = ?x']) (use assms(1) s' in \<open>simp_all add: inv_def\<close>)
  then show ?thesis
    using assms(1) g h s' by (simp add: inv_def distinct_put_session)
qed

lemma exec_inv:
  assumes "inv s" and "step_ok p s" and "exec now p s = Inr s'"
  shows "inv s'"
proof (cases p)
  case Cancel
  then show ?thesis using assms inv_settle(1) by (auto split: if_splits)
next
  case NewSession
  then show ?thesis using assms inv_NewSession by auto
next
  case (SetCurrent i)
  with assms(3) have *: "s' = s\<lparr>currentSessionId := Some i\<rparr>" "find_session i (sessions s) \<noteq> None"
    by (auto split: if_splits)
  show ?thesis by (rule inv_same [OF assms(1)]) (use * in \<open>simp_all add: current_ok_def\<close>)
next
  case (RemoveSession i)
  then show ?thesis using assms inv_RemoveSession by auto
next
  case ClearSessions
  then show ?thesis using assms by (auto simp: inv_def handle_ok_def current_ok_def)
next
  case (SetModel m)
  with assms(3) have *: "s' = s\<lparr>currentModel := m\<rparr>" by auto
  show ?thesis by (rule inv_same [OF assms(1)]) (use * assms(1) current_ok_same [of s' s] in \<open>simp_all add: inv_def\<close>)
next
  case (AppendUser t a)
  with assms(3) obtain s1 where oc: "on_current (\<lambda>x. Inr ((append_message (user_message (nextId s) t a now) now x)
                                  \<lparr>ses_model := currentModel s\<rparr>)) s = Inr s1"
    and s': "s' = s1\<lparr>nextId := Suc (nextId s)\<rparr>"
    by (auto split: sum.splits)
  from oc obtain i x where f: "find_session i (sessions s) = Some x"
    and s1: "s1 = s\<lparr>sessions := put_session ((append_message (user_message (nextId s) t a now) now x)
                                  \<lparr>ses_model := currentModel s\<rparr>) (sessions s)\<rparr>"
    by (auto elim!: on_current_Inr)
  have idle: "controllerState s = Idle" using assms(2) AppendUser by simp
  have xin: "x \<in> set (sessions s)" "ses_id x = i" using find_session_Some [OF f] by auto
  have np: "list_all (\<lambda>m. msg_status m \<noteq> Pending) (ses_messages x)"
    using idle_no_pending [OF assms(1) idle xin(1)] .
  have "inv (s\<lparr>sessions := put_session ((append_message (user_message (nextId s) t a now) now x)
                                  \<lparr>ses_model := currentModel s\<rparr>) (sessions s), nextId := Suc (nextId s)\<rparr>)"
  proof (rule inv_put_idle [OF assms(1) idle f])
    show "good (Suc (nextId s)) ((append_message (user_message (nextId s) t a now) now x)
                                  \<lparr>ses_model := currentModel s\<rparr>)"
      using good_append_user [OF inv_good [OF assms(1) xin(1)] np] .
  qed (use xin np in \<open>simp_all add: append_message_def user_message_def\<close>)
  then show ?thesis using s' s1 by simp
next
  case (TruncateAfter j)
  with assms(3) obtain i x x' where f: "find_session i (sessions s) = Some x"
    and t: "truncateAfter j now x = Inr x'"
    and s': "s' = s\<lparr>sessions := put_session x' (sessions s)\<rparr>"
    by (auto elim!: on_current_Inr)
  have idle: "controllerState s = Idle" using assms(2) TruncateAfter by simp
  have xin: "x \<in> set (sessions s)" "ses_id x = i" using find_session_Some [OF f] by auto
  have np: "list_all (\<lambda>m. msg_status m \<noteq> Pending) (ses_messages x)"
    using idle_no_pending [OF assms(1) idle xin(1)] .
  from t obtain ms where k: "keep_through j (ses_messages x) = Some ms"
    and x': "x' = x\<lparr>ses_messages := ms, ses_updatedAt := now\<rparr>"
    by (auto simp: truncateAfter_def split: option.splits)
  from keep_through_Some [OF k] np have np': "list_all (\<lambda>m. msg_status m \<noteq> Pending) (ses_messages x')"
    using x' by (auto simp: list_all_iff)
  have "inv (s\<lparr>sessions := put_session x' (sessions s), nextId := nextId s\<rparr>)"
    by (rule inv_put_idle [OF assms(1) idle f])
      (use good_truncate [OF inv_good [OF assms(1) xin(1)] t] xin np' in simp_all)
  then show ?thesis using s' by simp
next
  case (UpdateText j t)
  with assms(3) obtain i x x' where f: "find_session i (sessions s) = Some x"
    and u: "updateText j t now x = Inr x'"
    and s': "s' = s\<lparr>sessions := put_session x' (sessions s)\<rparr>"
    by (auto elim!: on_current_Inr)
  from u have x': "x' = x\<lparr>ses_messages :=
      map (\<lambda>m. if msg_id m = j then m\<lparr>msg_text := t\<rparr> else m) (ses_messages x), ses_updatedAt := now\<rparr>"
    by (auto simp: updateText_def split: option.splits if_splits)
  show ?thesis unfolding s' x' by (rule inv_map_session [OF assms(1) f]) auto
next
  case Start
  then show ?thesis using assms inv_Start by auto
next
  case (Increment d)
  with assms(3) obtain sid x mid t where f: "find_session sid (sessions s) = Some x"
    and s': "s' = s\<lparr>sessions := put_session (x\<lparr>ses_messages :=
      map (\<lambda>m. if msg_id m = mid then m\<lparr>msg_text := t\<rparr> else m) (ses_messages x), ses_updatedAt := now\<rparr>) (sessions s)\<rparr>"
    by (auto simp: increment_def updateText_def split: controller.splits option.splits if_splits)
  show ?thesis unfolding s' by (rule inv_map_session [OF assms(1) f]) auto
next
  case (Settle out)
  then show ?thesis using assms inv_settle(1) by auto
qed

lemma current_session_put:
  assumes "current_session s = Some x" and "ses_id x' = ses_id x"
    and "sessions s' = put_session x' (sessions s)" and "currentSessionId s' = currentSessionId s"
  shows "current_session s' = Some x'"
  using assms current_session_Some [OF assms(1)]
  by (simp add: current_session_def find_session_put)

lemma current_session_put_other:
  assumes "currentSessionId s = Some i" and "ses_id x' \<noteq> i"
    and "sessions s' = put_session x' (sessions s)" and "currentSessionId s' = currentSessionId s"
  shows "current_session s' = current_session s"
  using assms by (simp add: current_session_def find_session_put)

lemma find_map_id:
  "(\<And>m. msg_id (f m) = msg_id m) \<Longrightarrow>
     find (\<lambda>m. msg_id m = j) (map f ms) = map_option f (find (\<lambda>m. msg_id m = j) ms)"
  by (induction ms) auto

lemma stop_pending_simps [simp]:
  "msg_id (stop_pending m) = msg_id m" "msg_sender (stop_pending m) = msg_sender m"
  "msg_text (stop_pending m) = msg_text m" "msg_status (stop_pending m) \<noteq> Pending"
  by (simp_all add: stop_pending_def)

lemma stop_pending_id: "msg_status m \<noteq> Pending \<Longrightarrow> stop_pending m = m"
  by (simp add: stop_pending_def)

lemma map_stop_pending_id:
  "list_all (\<lambda>m. msg_status m \<noteq> Pending) ms \<Longrightarrow> map stop_pending ms = ms"
  by (induction ms) (simp_all add: stop_pending_id)

lemma settle_last:
  assumes "distinct (map msg_id ms)" and "ms \<noteq> []" and "msg_id (last ms) = mid"
    and "msg_status (last ms) = Pending"
    and "list_all (\<lambda>m. msg_status m \<noteq> Pending) (butlast ms)"
  shows "map (\<lambda>m. if msg_id m = mid then finish Cancelled m else m) ms = map stop_pending ms"
proof -
  have ms: "ms = butlast ms @ [last ms]" using assms(2) by simp
  have "distinct (map msg_id (butlast ms @ [last ms]))" using assms(1) ms by simp
  then have "msg_id (last ms) \<notin> msg_id ` set (butlast ms)" by simp
  then have "\<forall>m\<in>set (butlast ms). msg_id m \<noteq> mid" using assms(3) by (metis imageI)
  then have "map (\<lambda>m. if msg_id m = mid then finish Cancelled m else m) (butlast ms) = map stop_pending (butlast ms)"
    using assms(5) by (auto simp: list_all_iff stop_pending_id)
  moreover have "(if msg_id (last ms) = mid then finish Cancelled (last ms) else last ms) = stop_pending (last ms)"
    using assms(3,4) by (simp add: stop_pending_def)
  ultimately have "map (\<lambda>m. if msg_id m = mid then finish Cancelled m else m) (butlast ms @ [last ms])
      = map stop_pending (butlast ms @ [last ms])" by simp
  then show ?thesis using ms by simp
qed

lemma cancel_effect:
  assumes "inv s"
  obtains s1 where "exec now Cancel s = Inr s1" and "inv s1" and "controllerState s1 = Idle"
    and "currentSessionId s1 = currentSessionId s" and "nextId s1 = nextId s"
    and "currentModel s1 = currentModel s"
    and "messages s1 = map stop_pending (messages s)"
    and "ses_id ` set (sessions s1) = ses_id ` set (sessions s)"
proof (cases "controllerState s")
  case Idle
  have "messages s = map stop_pending (messages s)"
  proof (cases "current_session s")
    case None
    then show ?thesis by (simp add: messages_def)
  next
    case (Some x)
    then have "x \<in> set (sessions s)"
      using current_session_Some find_session_Some by blast
    from idle_no_pending [OF assms Idle this] show ?thesis
      using Some by (simp add: messages_def map_stop_pending_id)
  qed
  with Idle assms show ?thesis by (intro that [of s]) simp_all
next
  case (Streaming sid mid ctx)
  from assms Streaming obtain x where f: "find_session sid (sessions s) = Some x"
    and l: "ses_messages x \<noteq> []" "msg_id (last (ses_messages x)) = mid"
      "msg_status (last (ses_messages x)) = Pending"
    and others: "list_all (\<lambda>y. ses_id y = sid \<or> list_all (\<lambda>m. msg_status m \<noteq> Pending) (ses_messages y)) (sessions s)"
    by (auto simp: inv_def handle_ok_def split: option.splits)
  let ?f = "\<lambda>m. if msg_id m = mid then finish Cancelled m else m"
  let ?x' = "x\<lparr>ses_messages := map ?f (ses_messages x), ses_updatedAt := now\<rparr>"
  let ?s1 = "s\<lparr>sessions := put_session ?x' (sessions s), controllerState := Idle\<rparr>"
  have e: "exec now Cancel s = Inr ?s1"
    using Streaming f by (simp add: settle_def)
  have st: "settle Cancelled now s = Inr ?s1"
    using Streaming f by (simp add: settle_def)
  have x: "ses_id x = sid" "x \<in> set (sessions s)" using find_session_Some [OF f] by auto
  have gx: "good (nextId s) x" using inv_good [OF assms x(2)] .
  have mx: "map ?f (ses_messages x) = map stop_pending (ses_messages x)"
    using gx l by (intro settle_last) (simp_all add: good_def)
  have m: "messages ?s1 = map stop_pending (messages s)"
  proof (cases "currentSessionId s")
    case None
    then show ?thesis by (simp add: messages_def current_session_def)
  next
    case (Some i)
    show ?thesis
    proof (cases "i = sid")
      case True
      then have cs: "current_session s = Some x" using Some f by (simp add: current_session_def)
      have "current_session ?s1 = Some ?x'"
        by (rule current_session_put [OF cs]) simp_all
      then have A: "messages ?s1 = map ?f (ses_messages x)" by (simp add: messages_def)
      have B: "messages s = ses_messages x" using cs by (simp add: messages_def)
      show ?thesis unfolding B by (rule trans [OF A mx])
    next
      case False
      have cs: "current_session ?s1 = current_session s"
        by (rule current_session_put_other [OF Some, where x' = ?x']) (use False x in simp_all)
      show ?thesis
      proof (cases "current_session s")
        case None
        then show ?thesis using cs by (simp add: messages_def)
      next
        case (Some y)
        then have y: "y \<in> set (sessions s)" "ses_id y = i"
          using current_session_Some [OF Some] find_session_Some \<open>currentSessionId s = Some i\<close>
          by auto
        then have "list_all (\<lambda>m. msg_status m \<noteq> Pending) (ses_messages y)"
          using others False by (auto simp: list_all_iff)
        then show ?thesis using cs Some by (simp add: messages_def map_stop_pending_id)
      qed
    qed
  qed
  have ids: "ses_id ` set (sessions ?s1) = ses_id ` set (sessions s)"
    using x by (auto simp: set_put_session)
  show ?thesis
    using e inv_settle [OF assms st] m ids by (intro that [of ?s1]) simp_all
qed

lemma user_at_map:
  assumes "messages s' = map f (messages s)" and "\<And>m. msg_id (f m) = msg_id m"
    and "\<And>m. msg_sender (f m) = msg_sender m" and "user_at j s"
  shows "user_at j s'"
  using assms by (auto simp: user_at_def find_map_id split: option.splits)

lemma on_current_effect:
  assumes "on_current f s = Inr s'" and "\<And>x x'. f x = Inr x' \<Longrightarrow> ses_id x' = ses_id x"
  obtains x x' where "current_session s = Some x" and "f x = Inr x'"
    and "current_session s' = Some x'" and "s' = s\<lparr>sessions := put_session x' (sessions s)\<rparr>"
proof -
  from assms(1) obtain x x' where cs: "current_session s = Some x" and fx: "f x = Inr x'"
    and s': "s' = s\<lparr>sessions := put_session x' (sessions s)\<rparr>"
    by (auto simp: on_current_def split: option.splits sum.splits)
  have "current_session s' = Some x'"
    by (rule current_session_put [OF cs assms(2) [OF fx]]) (simp_all add: s')
  from cs fx this s' show ?thesis by (rule that)
qed

lemma current_session_same:
  "sessions s' = sessions s \<Longrightarrow> currentSessionId s' = currentSessionId s \<Longrightarrow>
     current_session s' = current_session s"
  by (simp add: current_session_def split: option.splits)

lemma truncateAfter_id: "truncateAfter j now x = Inr x' \<Longrightarrow> ses_id x' = ses_id x"
  by (auto simp: truncateAfter_def split: option.splits)

lemma updateText_id: "updateText j t now x = Inr x' \<Longrightarrow> ses_id x' = ses_id x"
  by (auto simp: updateText_def split: option.splits if_splits)

lemma AppendUser_ready:
  assumes "exec now (AppendUser t a) s = Inr s'"
  shows "ready s'" and "controllerState s' = controllerState s"
proof -
  from assms obtain s1 where oc: "on_current (\<lambda>x. Inr ((append_message (user_message (nextId s) t a now) now x)
                                  \<lparr>ses_model := currentModel s\<rparr>)) s = Inr s1"
    and s': "s' = s1\<lparr>nextId := Suc (nextId s)\<rparr>"
    by (auto split: sum.splits)
  from oc obtain x x' where cs: "current_session s1 = Some x'"
    and x': "x' = (append_message (user_message (nextId s) t a now) now x)\<lparr>ses_model := currentModel s\<rparr>"
    and s1: "s1 = s\<lparr>sessions := put_session x' (sessions s)\<rparr>"
    by (rule on_current_effect) (auto simp: append_message_def)
  have "current_session s' = Some x'" using cs s' current_session_same [of s' s1] by simp
  then show "ready s'" using x' by (simp add: ready_def append_message_def user_message_def)
  show "controllerState s' = controllerState s" using s' s1 by simp
qed

lemma TruncateAfter_ready:
  assumes "user_at j s" and "exec now (TruncateAfter j) s = Inr s'"
  shows "ready s'" and "controllerState s' = controllerState s"
proof -
  from assms(2) have oc: "on_current (truncateAfter j now) s = Inr s'" by simp
  from oc obtain x x' where cs: "current_session s = Some x" and t: "truncateAfter j now x = Inr x'"
    and cs': "current_session s' = Some x'" and s': "s' = s\<lparr>sessions := put_session x' (sessions s)\<rparr>"
    by (rule on_current_effect) (simp add: truncateAfter_id)
  from t obtain ms where k: "keep_through j (ses_messages x) = Some ms"
    and x': "ses_messages x' = ms"
    by (auto simp: truncateAfter_def split: option.splits)
  from keep_through_Some [OF k] assms(1) cs have "ms \<noteq> []" "msg_sender (last ms) = User"
    by (auto simp: user_at_def messages_def)
  then show "ready s'" using cs' x' by (simp add: ready_def)
  show "controllerState s' = controllerState s" using s' by simp
qed

lemma UpdateText_ready:
  assumes "ready s" and "exec now (UpdateText j t) s = Inr s'"
  shows "ready s'" and "controllerState s' = controllerState s"
proof -
  from assms(2) have oc: "on_current (updateText j t now) s = Inr s'" by simp
  from oc obtain x x' where cs: "current_session s = Some x" and u: "updateText j t now x = Inr x'"
    and cs': "current_session s' = Some x'" and s': "s' = s\<lparr>sessions := put_session x' (sessions s)\<rparr>"
    by (rule on_current_effect) (simp add: updateText_id)
  from u have x': "ses_messages x' =
      map (\<lambda>m. if msg_id m = j then m\<lparr>msg_text := t\<rparr> else m) (ses_messages x)"
    by (auto simp: updateText_def split: option.splits if_splits)
  from assms(1) cs have "ses_messages x \<noteq> []" "msg_sender (last (ses_messages x)) = User"
    by (auto simp: ready_def)
  then show "ready s'" using cs' x' by (simp add: ready_def last_map)
  show "controllerState s' = controllerState s" using s' by simp
qed

lemma find_distinct:
  "distinct (map msg_id ms) \<Longrightarrow> m \<in> set ms \<Longrightarrow> find (\<lambda>m'. msg_id m' = msg_id m) ms = Some m"
  by (induction ms) (auto simp: rev_image_eqI)

lemma inv_messages_distinct: "inv s \<Longrightarrow> distinct (map msg_id (messages s))"
proof -
  assume i: "inv s"
  show ?thesis
  proof (cases "current_session s")
    case None
    then show ?thesis by (simp add: messages_def)
  next
    case (Some x)
    then have "x \<in> set (sessions s)" using current_session_Some find_session_Some by blast
    from inv_good [OF i this] Some show ?thesis by (simp add: messages_def good_def)
  qed
qed

lemma trace_single:
  assumes "inv s" and "step_ok p s"
  shows "\<forall>s'\<in>set (exec_trace now [p] s). inv s'"
  using assms exec_inv by (auto split: sum.splits)

lemma trace_cancel:
  assumes "inv s"
    and "\<And>s1. inv s1 \<Longrightarrow> controllerState s1 = Idle \<Longrightarrow> messages s1 = map stop_pending (messages s)
           \<Longrightarrow> \<forall>s'\<in>set (exec_trace now ps s1). inv s'"
  shows "\<forall>s'\<in>set (exec_trace now (Cancel # ps) s). inv s'"
proof -
  obtain s1 where e: "exec now Cancel s = Inr s1" and i: "inv s1" and c: "controllerState s1 = Idle"
    and m: "messages s1 = map stop_pending (messages s)"
    using cancel_effect [OF assms(1), of now] by metis
  from assms(2) [OF i c m] e i show ?thesis by (simp del: exec.simps)
qed

lemma trace_truncate_start:
  assumes "inv s" and "controllerState s = Idle" and "user_at j s"
  shows "\<forall>s'\<in>set (exec_trace now [TruncateAfter j, Start] s). inv s'"
proof -
  have 1: "inv s1 \<and> ready s1" if "Inr s1 = exec now (TruncateAfter j) s" for s1
    using exec_inv [OF assms(1) _ that [symmetric]] TruncateAfter_ready [OF assms(3) that [symmetric]]
      assms(2) by simp
  have 2: "inv s2" if "Inr s1 = exec now (TruncateAfter j) s" and "Inr s2 = exec now Start s1" for s1 s2
    using 1 [OF that(1)] inv_Start that(2) [symmetric] by blast
  show ?thesis using 1 2 by (auto simp del: exec.simps split: sum.splits)
qed

lemma trace_truncate_update_start:
  assumes "inv s" and "controllerState s = Idle" and "user_at j s"
  shows "\<forall>s'\<in>set (exec_trace now [TruncateAfter j, UpdateText j t, Start] s). inv s'"
proof -
  have 1: "inv s1 \<and> ready s1" if "Inr s1 = exec now (TruncateAfter j) s" for s1
    using exec_inv [OF assms(1) _ that [symmetric]] TruncateAfter_ready [OF assms(3) that [symmetric]]
      assms(2) by simp
  have 2: "inv s2 \<and> ready s2" if "Inr s1 = exec now (TruncateAfter j) s"
    and "Inr s2 = exec now (UpdateText j t) s1" for s1 s2
  proof -
    from 1 [OF that(1)] have i: "inv s1" and r: "ready s1" by simp_all
    have "inv s2" by (rule exec_inv [OF i _ that(2) [symmetric]]) simp
    moreover have "ready s2" using UpdateText_ready [OF r that(2) [symmetric]] by simp
    ultimately show ?thesis by simp
  qed
  have 3: "inv s3" if "Inr s1 = exec now (TruncateAfter j) s"
    and "Inr s2 = exec now (UpdateText j t) s1" and "Inr s3 = exec now Start s2" for s1 s2 s3
    using 2 [OF that(1,2)] inv_Start that(3) [symmetric] by blast
  show ?thesis using 1 2 3 by (auto simp del: exec.simps split: sum.splits)
qed

lemma trace_append_start:
  assumes "inv s" and "controllerState s = Idle"
  shows "\<forall>s'\<in>set (exec_trace now [AppendUser t a, Start] s). inv s'"
proof -
  have 1: "inv s1 \<and> ready s1" if "Inr s1 = exec now (AppendUser t a) s" for s1
    using exec_inv [OF assms(1) _ that [symmetric]] AppendUser_ready [OF that [symmetric]] assms(2)
    by simp
  have 2: "inv s2" if "Inr s1 = exec now (AppendUser t a) s" and "Inr s2 = exec now Start s1" for s1 s2
    using 1 [OF that(1)] inv_Start that(2) [symmetric] by blast
  show ?thesis using 1 2 by (auto simp del: exec.simps split: sum.splits)
qed

lemma facade_trace_inv:
  assumes "inv s"
  shows "\<forall>s'\<in>set (facade_trace now ev s). inv s'"
proof (cases ev)
  case (SendMessage t a)
  show ?thesis
  proof (cases "controllerState s = Idle")
    case False
    then show ?thesis using SendMessage by (simp add: facade_trace_def sendMessage_plan_def)
  next
    case True
    show ?thesis
    proof (cases "currentSessionId s")
      case None
      obtain s1 where e: "exec now NewSession s = Inr s1" and c1: "controllerState s1 = Idle"
        using True by simp
      have i1: "inv s1" by (rule exec_inv [OF assms _ e]) simp
      from trace_append_start [OF i1 c1, of now t a] e i1 show ?thesis
        using SendMessage True None
        by (simp add: facade_trace_def sendMessage_plan_def del: exec.simps)
    next
      case (Some i)
      with trace_append_start [OF assms True, of now t a] show ?thesis
        using SendMessage True by (simp add: facade_trace_def sendMessage_plan_def del: exec.simps exec_trace.simps)
    qed
  qed
next
  case StopGeneration
  then show ?thesis
    using trace_single [OF assms, of "Settle Cancelled" now]
    by (simp add: facade_trace_def stopGeneration_plan_def del: exec_trace.simps)
next
  case (RegenerateResponse i)
  show ?thesis
  proof (cases "regenerateResponse_plan s i")
    case (Inl e)
    then show ?thesis using RegenerateResponse by (simp add: facade_trace_def)
  next
    case (Inr ps)
    then obtain a u rest where r: "rev (messages s) = a # u # rest" and u: "msg_sender u = User"
      and ps: "ps = [Cancel, TruncateAfter (msg_id u), Start]"
      by (auto simp: regenerateResponse_plan_def split: list.splits if_splits)
    from r have "u \<in> set (rev (messages s))" by simp
    then have "u \<in> set (messages s)" by simp
    from find_distinct [OF inv_messages_distinct [OF assms] this] u
    have ua: "user_at (msg_id u) s" by (simp add: user_at_def)
    have "\<forall>s'\<in>set (exec_trace now (Cancel # [TruncateAfter (msg_id u), Start]) s). inv s'"
    proof (rule trace_cancel [OF assms])
      fix s1 assume "inv s1" "controllerState s1 = Idle" "messages s1 = map stop_pending (messages s)"
      moreover from this have "user_at (msg_id u) s1"
        using user_at_map [OF _ _ _ ua, of s1 stop_pending] by simp
      ultimately show "\<forall>s'\<in>set (exec_trace now [TruncateAfter (msg_id u), Start] s1). inv s'"
        using trace_truncate_start by blast
    qed
    then show ?thesis using RegenerateResponse Inr ps by (simp add: facade_trace_def del: exec_trace.simps)
  qed
next
  case (EditMessage j t)
  show ?thesis
  proof (cases "editMessage_plan s j t")
    case (Inl e)
    then show ?thesis using EditMessage by (simp add: facade_trace_def)
  next
    case (Inr ps)
    then have ua: "user_at j s" and ps: "ps = [Cancel, TruncateAfter j, UpdateText j t, Start]"
      by (auto simp: editMessage_plan_def user_at_def split: option.splits if_splits)
    have "\<forall>s'\<in>set (exec_trace now (Cancel # [TruncateAfter j, UpdateText j t, Start]) s). inv s'"
    proof (rule trace_cancel [OF assms])
      fix s1 assume "inv s1" "controllerState s1 = Idle" "messages s1 = map stop_pending (messages s)"
      moreover from this have "user_at j s1"
        using user_at_map [OF _ _ _ ua, of s1 stop_pending] by simp
      ultimately show "\<forall>s'\<in>set (exec_trace now [TruncateAfter j, UpdateText j t, Start] s1). inv s'"
        using trace_truncate_update_start by blast
    qed
    then show ?thesis using EditMessage Inr ps by (simp add: facade_trace_def del: exec_trace.simps)
  qed
next
  case StartNewChat
  have "\<forall>s'\<in>set (exec_trace now (Cancel # [NewSession]) s). inv s'"
    by (rule trace_cancel [OF assms]) (rule trace_single, simp_all)
  then show ?thesis using StartNewChat by (simp add: facade_trace_def del: exec_trace.simps)
next
  case (LoadSession i)
  have "\<forall>s'\<in>set (exec_trace now (Cancel # [SetCurrent i]) s). inv s'"
    by (rule trace_cancel [OF assms]) (rule trace_single, simp_all)
  then show ?thesis using LoadSession
    by (simp add: facade_trace_def loadSession_plan_def del: exec_trace.simps)
next
  case (DeleteSession i)
  have "\<forall>s'\<in>set (exec_trace now (Cancel # [RemoveSession i]) s). inv s'"
    by (rule trace_cancel [OF assms]) (rule trace_single, simp_all)
  then show ?thesis using DeleteSession by (simp add: facade_trace_def del: exec_trace.simps)
next
  case ClearAllSessions
  have "\<forall>s'\<in>set (exec_trace now (Cancel # [ClearSessions]) s). inv s'"
    by (rule trace_cancel [OF assms]) (rule trace_single, simp_all)
  then show ?thesis using ClearAllSessions by (simp add: facade_trace_def del: exec_trace.simps)
next
  case (SetCurrentModel m)
  then show ?thesis
    using trace_single [OF assms, of "SetModel m" now]
    by (simp add: facade_trace_def del: exec_trace.simps)
next
  case (StreamIncrement d)
  then show ?thesis
    using trace_single [OF assms, of "Increment d" now]
    by (simp add: facade_trace_def del: exec_trace.simps)
next
  case StreamEnd
  then show ?thesis
    using trace_single [OF assms, of "Settle Completed" now]
    by (simp add: facade_trace_def del: exec_trace.simps)
next
  case (StreamError e)
  then show ?thesis
    using trace_single [OF assms, of "Settle (Failed e)" now]
    by (simp add: facade_trace_def del: exec_trace.simps)
qed

lemma exec_all_last: "snd (exec_all now ps s) = last (s # exec_trace now ps s)"
  by (induction ps arbitrary: s) (auto split: sum.splits)

lemma facade_last: "snd (facade now ev s) = last (s # facade_trace now ev s)"
  by (simp add: facade_def facade_trace_def exec_all_last split: sum.splits)

lemma facade_inv: "inv s \<Longrightarrow> inv (snd (facade now ev s))"
  using facade_trace_inv [of s now ev] by (simp add: facade_last)

lemma all_points_inv: "inv s \<Longrightarrow> \<forall>s'\<in>set (all_points evs s). inv s'"
proof (induction evs arbitrary: s)
  case Nil
  then show ?case by simp
next
  case (Cons e evs)
  from Cons.IH [OF facade_inv [OF Cons.prems]] facade_trace_inv [OF Cons.prems] Cons.prems
  show ?case by auto
qed

lemma run_inv: "inv s \<Longrightarrow> inv (run evs s)"
  by (induction evs arbitrary: s) (simp_all add: facade_inv)

lemma inv_init: "inv init"
  by (simp add: inv_def init_def handle_ok_def current_ok_def)

lemma sum_list_one_key:
  assumes "distinct (map k xs)" and "\<forall>y\<in>set xs. k y \<noteq> a \<longrightarrow> c y = (0::nat)"
    and "\<forall>y\<in>set xs. c y \<le> 1"
  shows "sum_list (map c xs) \<le> 1"
  using assms
proof (induction xs)
  case Nil
  then show ?case by simp
next
  case (Cons y ys)
  show ?case
  proof (cases "k y = a")
    case True
    with Cons.prems have "\<forall>z\<in>set ys. c z = 0" by (auto simp: image_iff)
    then have "sum_list (map c ys) = 0" by simp
    moreover have "c y \<le> 1" using Cons.prems by simp
    ultimately show ?thesis by (simp only: list.map sum_list.Cons)
  next
    case False
    with Cons show ?thesis by simp
  qed
qed

lemma pending_at_most_last:
  assumes "list_all (\<lambda>m. msg_status m \<noteq> Pending) (butlast ms)"
  shows "length (filter (\<lambda>m. msg_status m = Pending) ms) \<le> 1"
proof (cases "ms = []")
  case True
  then show ?thesis by simp
next
  case False
  then have "ms = butlast ms @ [last ms]" by simp
  then have "filter (\<lambda>m. msg_status m = Pending) ms =
      filter (\<lambda>m. msg_status m = Pending) (butlast ms) @ filter (\<lambda>m. msg_status m = Pending) [last ms]"
    by (metis filter_append)
  moreover have "filter (\<lambda>m. msg_status m = Pending) (butlast ms) = []"
    using assms by (auto simp: list_all_iff filter_empty_conv)
  ultimately show ?thesis by simp
qed

lemma inv_pending_count: "inv s \<Longrightarrow> pending_count s \<le> 1"
proof -
  assume i: "inv s"
  let ?c = "\<lambda>x. length (filter (\<lambda>m. msg_status m = Pending) (ses_messages x))"
  show ?thesis
  proof (cases "controllerState s")
    case Idle
    then have "\<forall>x\<in>set (sessions s). ?c x = 0"
      using i by (auto simp: inv_def handle_ok_def list_all_iff filter_empty_conv)
    then have "sum_list (map ?c (sessions s)) = 0" by simp
    then show ?thesis unfolding pending_count_def by linarith
  next
    case (Streaming sid mid ctx)
    have "sum_list (map ?c (sessions s)) \<le> 1"
    proof (rule sum_list_one_key [where k = ses_id and a = sid])
      show "distinct (map ses_id (sessions s))" using i by (simp add: inv_def)
      show "\<forall>y\<in>set (sessions s). ses_id y \<noteq> sid \<longrightarrow> ?c y = 0"
        using i Streaming by (auto simp: inv_def handle_ok_def list_all_iff filter_empty_conv)
      show "\<forall>y\<in>set (sessions s). ?c y \<le> 1"
        using i pending_at_most_last by (auto simp: inv_def list_all_iff good_def)
    qed
    then show ?thesis unfolding pending_count_def .
  qed
qed

lemma start_refused: "controllerState s \<noteq> Idle \<Longrightarrow> start sid ctx now s = Inl Busy"
  by (simp add: start_def)

section \<open>Single flight\<close>

text \<open>
  Claim C1. For every sequence of facade operations and stream events, begun on the empty
  store, and at every point of their execution, the states between the steps of an
  operation included, at most one message of the whole session collection is pending; and
  the controller refuses \<open>start\<close> while it is streaming.
\<close>

theorem single_flight:
  "(\<forall>s\<in>set (all_points evs init). pending_count s \<le> 1)
   \<and> (controllerState s1 \<noteq> Idle \<longrightarrow> start sid ctx now s1 = Inl Busy)"
  using all_points_inv [OF inv_init, of evs] inv_pending_count start_refused [of s1 sid ctx now]
  by blast

lemma demo_points:
  "map pending_count (all_points demo_run init) =
     [0, 0, 0, 1, 1, 1, 1, 0, 0, 0, 1, 1, 1, 1, 1, 0, 0, 0, 0, 1, 1, 0, 0, 0, 0, 1, 1, 0, 0, 0]"
  by code_simp

theorem single_flight_witness:
  "list_all (\<lambda>s. pending_count s \<le> 1) (all_points demo_run init)
   \<and> pending_count (run (take 1 demo_run) init) = 1
   \<and> controllerState (run (take 1 demo_run) init) \<noteq> Idle
   \<and> start 0 [] 2 (run (take 1 demo_run) init) = Inl Busy"
proof -
  have c: "controllerState (run (take 1 demo_run) init) \<noteq> Idle" by code_simp
  have p: "pending_count (run (take 1 demo_run) init) = 1" by code_simp
  from single_flight [of demo_run "run (take 1 demo_run) init" 0 "[]" 2] c p
  show ?thesis by (simp add: list_all_iff)
qed

end
